theory Spec2Isabelle
  imports Complex_Main "HOL-Library.Word" "HOL-Library.Log_Nat"
begin

unbundle bit_operations_syntax

section \<open>JavaScript strings and Node buffers\<close>

text \<open>
  A JavaScript string is a sequence of 16-bit code units; \<open>length\<close> counts code units.
  A Node \<open>Buffer\<close> is a sequence of bytes. \<open>js\<close> writes an ASCII literal as a
  JavaScript string.
\<close>

type_synonym code_unit = "16 word"
type_synonym jsstring = "code_unit list"
type_synonym byte = "8 word"

definition js :: "string \<Rightarrow> jsstring" where
  "js s = map of_char s"

text \<open>The errors that \<open>build.mjs\<close> can raise in the functions modelled here.\<close>

datatype error =
    TypeError
  | UnexpectedText jsstring
  | UndefinedVariable jsstring

subsection \<open>\<open>Buffer.from(output, 'utf8')\<close>\<close>

text \<open>
  Node encodes the code units as UTF-8: a surrogate pair is one code point of four bytes,
  a surrogate without its partner is replaced by U+FFFD (three bytes), every other code
  unit is a code point of one, two or three bytes.
\<close>

definition is_high_surrogate :: "code_unit \<Rightarrow> bool" where
  "is_high_surrogate u \<longleftrightarrow> 0xD800 \<le> u \<and> u \<le> 0xDBFF"

definition is_low_surrogate :: "code_unit \<Rightarrow> bool" where
  "is_low_surrogate u \<longleftrightarrow> 0xDC00 \<le> u \<and> u \<le> 0xDFFF"

definition utf8_code_point :: "nat \<Rightarrow> byte list" where
  "utf8_code_point c =
     (if c < 0x80 then [of_nat c]
      else if c < 0x800 then [of_nat (0xC0 + c div 64), of_nat (0x80 + c mod 64)]
      else if c < 0x10000 then
        [of_nat (0xE0 + c div 4096), of_nat (0x80 + c div 64 mod 64),
         of_nat (0x80 + c mod 64)]
      else
        [of_nat (0xF0 + c div 262144), of_nat (0x80 + c div 4096 mod 64),
         of_nat (0x80 + c div 64 mod 64), of_nat (0x80 + c mod 64)])"

fun utf8_encode :: "jsstring \<Rightarrow> byte list" where
  "utf8_encode [] = []"
| "utf8_encode [u] =
     (if is_high_surrogate u \<or> is_low_surrogate u then utf8_code_point 0xFFFD
      else utf8_code_point (unat u))"
| "utf8_encode (u # l # us) =
     (if is_high_surrogate u \<and> is_low_surrogate l then
        utf8_code_point (0x10000 + (unat u - 0xD800) * 0x400 + (unat l - 0xDC00))
          @ utf8_encode us
      else if is_high_surrogate u \<or> is_low_surrogate u then
        utf8_code_point 0xFFFD @ utf8_encode (l # us)
      else utf8_code_point (unat u) @ utf8_encode (l # us))"

text \<open>\<open>Buffer.from(output, 'utf8').length\<close>.\<close>

definition byte_length :: "jsstring \<Rightarrow> nat" where
  "byte_length s = length (utf8_encode s)"

section \<open>The candidate sequence: \<open>runPacker\<close>\<close>

text \<open>
  RegPack's \<open>packer.runPacker(source, options)\<close> is an external collaborator: it is a
  parameter here, returning the finite list of its method descriptors. A descriptor has
  the baseline string \<open>contents\<close> and the array \<open>result\<close>, whose entries hold the
  candidate string at index 1 (the second component of the pair).
\<close>

type_synonym options = "(jsstring \<times> jsstring) list"

record 'a packer_method =
  contents :: jsstring
  result :: "('a \<times> jsstring) list"

type_synonym 'a packer = "jsstring \<Rightarrow> options \<Rightarrow> 'a packer_method list"

text \<open>
  One method yields \<open>contents\<close>, then \<open>result[i][1]\<close> for \<open>i\<close> from
  \<open>result.length - 1\<close> down to 0.
\<close>

definition method_outputs :: "'a packer_method \<Rightarrow> jsstring list" where
  "method_outputs m = contents m # rev (map snd (result m))"

definition runPacker :: "'a packer \<Rightarrow> jsstring \<Rightarrow> options \<Rightarrow> jsstring list" where
  "runPacker packer source opts = concat (map method_outputs (packer source opts))"

text \<open>A packer that proposes exactly the given strings, each as the baseline of a method.\<close>

definition packer_of :: "jsstring list \<Rightarrow> unit packer" where
  "packer_of cands source opts = map (\<lambda>c. \<lparr>contents = c, result = []\<rparr>) cands"

section \<open>The candidate selector: \<open>compressSource\<close>\<close>

text \<open>
  \<open>let text, buf;\<close> both start undefined (\<open>None\<close>). The loop body keeps the pair or
  replaces both. Reading \<open>buf.length\<close> of an undefined \<open>buf\<close> would raise a TypeError.
\<close>

record selection =
  sel_text :: "jsstring option"
  sel_buf :: "byte list option"

definition select_step :: "selection \<Rightarrow> jsstring \<Rightarrow> error + selection" where
  "select_step s output =
     (let obuf = utf8_encode output in
      if sel_text s = None then Inr \<lparr>sel_text = Some output, sel_buf = Some obuf\<rparr>
      else
        (case sel_buf s of
           None \<Rightarrow> Inl TypeError
         | Some b \<Rightarrow>
             if length obuf < length b
             then Inr \<lparr>sel_text = Some output, sel_buf = Some obuf\<rparr>
             else Inr s))"

fun select_loop :: "selection \<Rightarrow> jsstring list \<Rightarrow> error + selection" where
  "select_loop s [] = Inr s"
| "select_loop s (output # outputs) =
     (case select_step s output of
        Inl e \<Rightarrow> Inl e
      | Inr s' \<Rightarrow> select_loop s' outputs)"

definition compressSource :: "'a packer \<Rightarrow> jsstring \<Rightarrow> error + selection" where
  "compressSource packer source =
     select_loop \<lparr>sel_text = None, sel_buf = None\<rparr> (runPacker packer source [])"

text \<open>The state of the loop once \<open>t\<close> is the current best.\<close>

definition holding :: "jsstring \<Rightarrow> selection" where
  "holding t = \<lparr>sel_text = Some t, sel_buf = Some (utf8_encode t)\<rparr>"

section \<open>The text escaper: \<open>escapeTextHTML\<close>\<close>

text \<open>
  The replacement callback of \<open>escapeTextHTML\<close>: the \<open>switch\<close> on the matched text,
  whose \<open>default\<close> branch throws.
\<close>

definition escape_callback :: "jsstring \<Rightarrow> error + jsstring" where
  "escape_callback t =
     (if t = js ''&'' then Inr (js ''&amp;'')
      else if t = js ''<'' then Inr (js ''&lt;'')
      else if t = js ''>'' then Inr (js ''&gt;'')
      else Inl (UnexpectedText t))"

text \<open>
  \<open>text.replace(/&<>/g, callback)\<close>: the pattern \<open>/&<>/\<close> is the three characters
  \<open>&\<close>, \<open><\<close>, \<open>>\<close> in a row (it is not a character class). Every match, from left
  to right and without overlap, is replaced by what the callback returns for it; an
  exception of the callback ends the call.
\<close>

fun escapeTextHTML :: "jsstring \<Rightarrow> error + jsstring" where
  "escapeTextHTML (a # b # c # rest) =
     (if [a, b, c] = js ''&<>'' then
        (case escape_callback [a, b, c] of
           Inl e \<Rightarrow> Inl e
         | Inr r \<Rightarrow>
             (case escapeTextHTML rest of Inl e \<Rightarrow> Inl e | Inr out \<Rightarrow> Inr (r @ out)))
      else
        (case escapeTextHTML (b # c # rest) of
           Inl e \<Rightarrow> Inl e
         | Inr out \<Rightarrow> Inr (a # out)))"
| "escapeTextHTML s = Inr s"

section \<open>The template engine: \<open>evalTemplate\<close>\<close>

text \<open>\<open>\w\<close> in a pattern without flags: a letter, a digit or the underscore, all ASCII.\<close>

definition is_word_char :: "code_unit \<Rightarrow> bool" where
  "is_word_char u \<longleftrightarrow>
     (0x41 \<le> u \<and> u \<le> 0x5A) \<or> (0x61 \<le> u \<and> u \<le> 0x7A)
     \<or> (0x30 \<le> u \<and> u \<le> 0x39) \<or> u = 0x5F"

text \<open>
  The pattern \<open>/\{\{(\w+)\}\}/\<close> tried at the head of a string: two \<open>{\<close> (0x7B), the
  longest non-empty run of word characters, two \<open>}\<close> (0x7D). The result is the captured
  name and the text after the match. Giving back word characters of the greedy run
  cannot help, since \<open>}\<close> is not a word character.
\<close>

fun match_placeholder :: "jsstring \<Rightarrow> (jsstring \<times> jsstring) option" where
  "match_placeholder (a # b # r) =
     (if a = 0x7B \<and> b = 0x7B then
        (let name = takeWhile is_word_char r in
         if name = [] then None
         else
           (case dropWhile is_word_char r of
              c # d # rest \<Rightarrow> if c = 0x7D \<and> d = 0x7D then Some (name, rest) else None
            | _ \<Rightarrow> None))
      else None)"
| "match_placeholder s = None"

text \<open>
  A global \<open>replace\<close> first finds every match, from left to right, each search starting
  where the last match ended; the text between matches is kept.
\<close>

datatype piece = Literal code_unit | Placeholder jsstring

function scan_template :: "jsstring \<Rightarrow> piece list" where
  "scan_template [] = []"
| "scan_template (c # cs) =
     (case match_placeholder (c # cs) of
        Some (name, rest) \<Rightarrow> Placeholder name # scan_template rest
      | None \<Rightarrow> Literal c # scan_template cs)"
  by pat_completeness auto
termination
proof (relation "measure length")
  show "wf (measure length)" by simp
next
  fix c :: code_unit and cs x2 name rest
  assume m: "match_placeholder (c # cs) = Some x2" and x: "(name, rest) = x2"
  have "length rest < length (c # cs)"
  proof (cases cs)
    case Nil
    with m show ?thesis by simp
  next
    case (Cons b r)
    have "length (dropWhile is_word_char r) \<le> length r"
      by (rule length_dropWhile_le)
    with m x Cons show ?thesis
      by (auto simp: Let_def split: if_splits list.splits)
  qed
  then show "(rest, c # cs) \<in> measure length" by simp
next
  fix c :: code_unit and cs
  show "(cs, c # cs) \<in> measure length" by simp
qed

text \<open>
  The values of the \<open>Map\<close> given to \<open>evalTemplate\<close>: strings, \<open>null\<close> or \<open>undefined\<close>.
  \<open>variables.get(name)\<close> is \<open>undefined\<close> for a name that is not a key.
\<close>

datatype jsvalue = JUndefined | JNull | JString jsstring

type_synonym variables = "jsstring \<rightharpoonup> jsvalue"

definition map_get :: "variables \<Rightarrow> jsstring \<Rightarrow> jsvalue" where
  "map_get variables name = (case variables name of None \<Rightarrow> JUndefined | Some v \<Rightarrow> v)"

text \<open>The replacement callback: \<open>value == null\<close> holds for \<open>null\<close> and \<open>undefined\<close>.\<close>

definition template_callback :: "variables \<Rightarrow> jsstring \<Rightarrow> error + jsstring" where
  "template_callback variables name =
     (case map_get variables name of
        JUndefined \<Rightarrow> Inl (UndefinedVariable name)
      | JNull \<Rightarrow> Inl (UndefinedVariable name)
      | JString v \<Rightarrow> Inr v)"

text \<open>
  Then the callback is called for each match in order; the first exception ends the
  call, and no string is returned.
\<close>

fun substitute :: "variables \<Rightarrow> piece list \<Rightarrow> error + jsstring" where
  "substitute variables [] = Inr []"
| "substitute variables (Literal c # ps) =
     (case substitute variables ps of Inl e \<Rightarrow> Inl e | Inr out \<Rightarrow> Inr (c # out))"
| "substitute variables (Placeholder name # ps) =
     (case template_callback variables name of
        Inl e \<Rightarrow> Inl e
      | Inr v \<Rightarrow>
          (case substitute variables ps of Inl e \<Rightarrow> Inl e | Inr out \<Rightarrow> Inr (v @ out)))"

definition evalTemplate :: "jsstring \<Rightarrow> variables \<Rightarrow> error + jsstring" where
  "evalTemplate template variables = substitute variables (scan_template template)"

text \<open>A placeholder as it is written in a template: \<open>{{name}}\<close>.\<close>

definition placeholder :: "jsstring \<Rightarrow> jsstring" where
  "placeholder name = js ''{{'' @ name @ js ''}}''"

definition is_identifier :: "jsstring \<Rightarrow> bool" where
  "is_identifier name \<longleftrightarrow> name \<noteq> [] \<and> (\<forall>u\<in>set name. is_word_char u)"

text \<open>The names that the placeholders of a template capture, in the order of the matches.\<close>

definition placeholders :: "jsstring \<Rightarrow> jsstring list" where
  "placeholders template =
     concat (map (\<lambda>p. case p of Literal c \<Rightarrow> [] | Placeholder n \<Rightarrow> [n])
       (scan_template template))"

text \<open>
  The template as the specification describes it: plain text \<open>t0\<close>, then for each part
  a placeholder \<open>{{n}}\<close> and plain text \<open>t\<close>; a part also carries the value \<open>v\<close> of its
  identifier. \<open>template_text\<close> is the template, \<open>filled_text\<close> is the same text with
  every placeholder replaced by its value. A text is plain when no placeholder occurs
  in it.
\<close>

definition has_placeholder :: "jsstring \<Rightarrow> bool" where
  "has_placeholder t \<longleftrightarrow> (\<exists>p n q. t = p @ placeholder n @ q \<and> is_identifier n)"

fun template_text :: "jsstring \<Rightarrow> (jsstring \<times> jsstring \<times> jsstring) list \<Rightarrow> jsstring" where
  "template_text t0 [] = t0"
| "template_text t0 ((n, v, t) # parts) = t0 @ placeholder n @ template_text t parts"

fun filled_text :: "jsstring \<Rightarrow> (jsstring \<times> jsstring \<times> jsstring) list \<Rightarrow> jsstring" where
  "filled_text t0 [] = t0"
| "filled_text t0 ((n, v, t) # parts) = t0 @ v @ filled_text t parts"

section \<open>The document: \<open>buildHTML\<close>\<close>

definition title :: jsstring where
  "title = js ''Traveler''"

text \<open>\<open>JSON.stringify(title)\<close>: the title between double quotes (0x22), nothing to escape.\<close>

definition title_js :: jsstring where
  "title_js = [0x22] @ title @ [0x22]"

definition buildHTML :: "jsvalue \<Rightarrow> jsstring \<Rightarrow> error + jsstring" where
  "buildHTML source shim =
     (case escapeTextHTML title of
        Inl e \<Rightarrow> Inl e
      | Inr title_html \<Rightarrow>
          evalTemplate shim
            [js ''title_html'' \<mapsto> JString title_html,
             js ''title_js'' \<mapsto> JString title_js,
             js ''code'' \<mapsto> source])"

section \<open>The budget bar: \<open>makeBar\<close>\<close>

subsection \<open>Numbers\<close>

text \<open>
  A JavaScript number is an IEEE 754 double. A finite double is a rational of the form
  \<open>m * 2 ^ e\<close> with \<open>\<bar>m\<bar> < 2 ^ 53\<close> and \<open>- 1074 \<le> e\<close>; the result of an operation is
  the exact result rounded to the nearest double, a tie to the one with an even
  mantissa, and an infinity when the rounded value reaches \<open>2 ^ 1024\<close>.
\<close>

datatype number = Finite rat | PosInfinity | NegInfinity

text \<open>The nearest integer, a tie to the even one.\<close>

definition round_half_even :: "rat \<Rightarrow> int" where
  "round_half_even y =
     (let f = \<lfloor>y\<rfloor>; r = y - of_int f in
      if r < 1 / 2 then f else if 1 / 2 < r then f + 1 else if even f then f else f + 1)"

text \<open>For \<open>0 < x\<close>, the exponent \<open>e\<close> with \<open>2 ^ e \<le> x < 2 ^ (e + 1)\<close>.\<close>

definition binade :: "rat \<Rightarrow> int" where
  "binade x = (if 1 \<le> x then bitlen \<lfloor>x\<rfloor> - 1 else - bitlen (\<lceil>1 / x\<rceil> - 1))"

text \<open>The nearest multiple of \<open>2 ^ e\<close>.\<close>

definition round_to_ulp :: "int \<Rightarrow> rat \<Rightarrow> rat" where
  "round_to_ulp e x = of_int (round_half_even (x / 2 powi e)) * 2 powi e"

text \<open>
  Rounding to 53 significant bits: the doubles between \<open>2 ^ e\<close> and \<open>2 ^ (e + 1)\<close>
  are the multiples of \<open>2 ^ (e - 52)\<close>, and below \<open>2 ^ - 1022\<close> (the subnormal range)
  the multiples of \<open>2 ^ - 1074\<close>.
\<close>

definition round_double :: "rat \<Rightarrow> rat" where
  "round_double x = round_to_ulp (max (- 1022) (binade \<bar>x\<bar>) - 52) x"

definition to_double :: "rat \<Rightarrow> number" where
  "to_double x =
     (let r = round_double x in
      if 2 ^ 1024 \<le> r then PosInfinity
      else if r \<le> - (2 ^ 1024) then NegInfinity
      else Finite r)"

text \<open>\<open>a * b\<close> for a positive finite double \<open>b\<close>.\<close>

definition double_times :: "number \<Rightarrow> rat \<Rightarrow> number" where
  "double_times a b =
     (case a of
        Finite x \<Rightarrow> to_double (x * b)
      | PosInfinity \<Rightarrow> PosInfinity
      | NegInfinity \<Rightarrow> NegInfinity)"

text \<open>The order of the numbers.\<close>

fun number_le :: "number \<Rightarrow> number \<Rightarrow> bool" where
  "number_le NegInfinity b = True"
| "number_le a PosInfinity = True"
| "number_le (Finite x) (Finite y) = (x \<le> y)"
| "number_le a b = False"

text \<open>
  \<open>Math.round\<close> of a finite number: the nearest integer, a tie towards plus infinity.
  The result is exact: a double of magnitude \<open>2 ^ 52\<close> or more is an integer already.
\<close>

definition js_round :: "rat \<Rightarrow> int" where
  "js_round x = \<lfloor>x + 1 / 2\<rfloor>"

subsection \<open>The bar\<close>

text \<open>\<open>>>\<close> and \<open>&\<close> first convert their operand to a signed 32-bit integer.\<close>

definition to_int32 :: "int \<Rightarrow> int" where
  "to_int32 x = (x + 2 ^ 31) mod 2 ^ 32 - 2 ^ 31"

text \<open>
  \<open>Array(...Array(7).keys()).map((i) => String.fromCodePoint(0x2589 + 6 - i))\<close>: seven
  strings of one code unit each, U+258F (one eighth) at index 0 to U+2589 (seven
  eighths) at index 6.
\<close>

definition barBlocks :: "jsstring list" where
  "barBlocks = map (\<lambda>i. [of_nat (0x2589 + 6 - i)]) [0..<7]"

text \<open>
  \<open>t += a[i]\<close>: an index outside the array reads \<open>undefined\<close>, and \<open>+=\<close> on a string
  appends the nine characters \<open>undefined\<close>.
\<close>

definition array_get_text :: "jsstring list \<Rightarrow> int \<Rightarrow> jsstring" where
  "array_get_text a i =
     (if 0 \<le> i \<and> i < int (length a) then a ! nat i else js ''undefined'')"

text \<open>
  \<open>Math.max(10, process.stderr.columns || 80) - 2\<close>: the width of the terminal is a
  parameter, \<open>None\<close> when \<open>stderr\<close> is not a terminal; 0 is falsy.
\<close>

definition bar_columns :: "nat option \<Rightarrow> int" where
  "bar_columns stderr_columns =
     max 10 (case stderr_columns of None \<Rightarrow> 80 | Some n \<Rightarrow> if n = 0 then 80 else int n) - 2"

text \<open>
  \<open>Math.min(columns * 8, Math.max(0, Math.round(frac * columns * 8)))\<close>, for a finite
  double \<open>frac\<close>: the two products are rounded, the first and then the second.
  \<open>Math.round\<close> keeps an infinity, which \<open>Math.max\<close> and \<open>Math.min\<close> then clamp.
\<close>

definition bar_bwidth :: "int \<Rightarrow> rat \<Rightarrow> int" where
  "bar_bwidth columns fraction =
     (case double_times (double_times (Finite fraction) (of_int columns)) 8 of
        Finite p \<Rightarrow> min (columns * 8) (max 0 (js_round p))
      | PosInfinity \<Rightarrow> columns * 8
      | NegInfinity \<Rightarrow> min (columns * 8) 0)"

text \<open>
  The three rows of the box. Each \<open>for\<close> loop appends one character per round, so it
  is a \<open>replicate\<close>; \<open>i1\<close> and \<open>i2\<close> are the counter \<open>i\<close> after the loop of the full
  blocks and after the partial block.
\<close>

definition makeBar :: "nat option \<Rightarrow> rat \<Rightarrow> jsstring" where
  "makeBar stderr_columns fraction =
     (let columns = bar_columns stderr_columns;
          bwidth = bar_bwidth columns fraction;
          fullBlocks = drop_bit 3 (to_int32 bwidth);
          fracBlock = to_int32 bwidth AND 7;
          t0 = [0x250C] @ replicate (nat columns) 0x2500 @ [0x2510, 0x0A, 0x2502];
          t1 = t0 @ replicate (nat fullBlocks) 0x2588;
          i1 = max 0 fullBlocks;
          t2 = (if fracBlock \<noteq> 0 then t1 @ array_get_text barBlocks fracBlock else t1);
          i2 = (if fracBlock \<noteq> 0 then i1 + 1 else i1);
          t3 = t2 @ replicate (nat (columns - i2)) 0x20;
          t4 = t3 @ [0x2502, 0x0A, 0x2514] @ replicate (nat columns) 0x2500
      in t4 @ [0x2518, 0x0A])"

section \<open>The report: \<open>printStats\<close>\<close>

definition sizeLimit :: nat where
  "sizeLimit = 1024"

text \<open>
  What \<open>printStats\<close> writes to \<open>stderr\<close>, before the colours of \<open>chalk\<close> and the
  decimal rendering of the numbers: the size, the branch taken, its fraction and the bar.
  The size is the length of a buffer, an integer below \<open>2 ^ 53\<close>: the subtraction and the
  division by 1024 are exact, so the fraction is a double.
\<close>

record report =
  report_size :: nat
  report_over :: bool
  report_fraction :: rat
  report_bar :: jsstring

definition printStats :: "nat option \<Rightarrow> nat \<Rightarrow> report" where
  "printStats stderr_columns sz =
     (if sz > sizeLimit then
        (let fraction = (of_nat sz - of_nat sizeLimit) / of_nat sizeLimit in
         \<lparr>report_size = sz, report_over = True, report_fraction = fraction,
          report_bar = makeBar stderr_columns fraction\<rparr>)
      else
        (let fraction = (of_nat sizeLimit - of_nat sz) / of_nat sizeLimit in
         \<lparr>report_size = sz, report_over = False, report_fraction = fraction,
          report_bar = makeBar stderr_columns fraction\<rparr>))"

section \<open>The pipeline: \<open>build\<close>\<close>

text \<open>
  The two files read are the parameters \<open>source\<close> and \<open>shim\<close>; the report and the two
  files written are the result. \<open>buf.length\<close> of an undefined \<open>buf\<close> raises a TypeError.
\<close>

record artifacts =
  stats :: report
  demo_js :: "byte list"
  demo_html :: jsstring

definition build :: "'a packer \<Rightarrow> nat option \<Rightarrow> jsstring \<Rightarrow> jsstring \<Rightarrow> error + artifacts" where
  "build packer stderr_columns source shim =
     (case compressSource packer source of
        Inl e \<Rightarrow> Inl e
      | Inr s \<Rightarrow>
          (case sel_buf s of
             None \<Rightarrow> Inl TypeError
           | Some b \<Rightarrow>
               (let r = printStats stderr_columns (length b) in
                case buildHTML (case sel_text s of None \<Rightarrow> JUndefined | Some t \<Rightarrow> JString t) shim of
                  Inl e \<Rightarrow> Inl e
                | Inr html \<Rightarrow> Inr \<lparr>stats = r, demo_js = b, demo_html = html\<rparr>)))"

section \<open>Properties of the selector\<close>

lemma runPacker_packer_of: "runPacker (packer_of cands) source opts = cands"
  by (induction cands) (simp_all add: runPacker_def packer_of_def method_outputs_def)

lemma select_step_first:
  "select_step \<lparr>sel_text = None, sel_buf = None\<rparr> c = Inr (holding c)"
  by (simp add: select_step_def holding_def)

lemma select_step_holding:
  "select_step (holding t) c =
     Inr (if byte_length c < byte_length t then holding c else holding t)"
  by (simp add: select_step_def holding_def byte_length_def)

lemma select_loop_first:
  "select_loop \<lparr>sel_text = None, sel_buf = None\<rparr> (c # cs) = select_loop (holding c) cs"
  by (simp add: select_step_first)

lemma select_loop_holding_Cons:
  "select_loop (holding t) (c # cs) =
     select_loop (if byte_length c < byte_length t then holding c else holding t) cs"
  by (simp add: select_step_holding)

text \<open>The loop never fails once it holds a candidate, and what it holds is a minimum.\<close>

lemma select_loop_min:
  "\<exists>w. select_loop (holding t) cs = Inr (holding w) \<and> w \<in> set (t # cs)
       \<and> (\<forall>c\<in>set (t # cs). byte_length w \<le> byte_length c)"
proof (induction cs arbitrary: t)
  case Nil
  show ?case by simp
next
  case (Cons c cs)
  show ?case
  proof (cases "byte_length c < byte_length t")
    case True
    from Cons.IH [of c] obtain w where
      w: "select_loop (holding c) cs = Inr (holding w)" "w \<in> set (c # cs)"
         "\<forall>x\<in>set (c # cs). byte_length w \<le> byte_length x"
      by blast
    from w(3) True have "byte_length w \<le> byte_length t" by auto
    with w True show ?thesis
      by (auto simp: select_loop_holding_Cons simp del: select_loop.simps)
  next
    case False
    from Cons.IH [of t] obtain w where
      w: "select_loop (holding t) cs = Inr (holding w)" "w \<in> set (t # cs)"
         "\<forall>x\<in>set (t # cs). byte_length w \<le> byte_length x"
      by blast
    from w(3) False have "byte_length w \<le> byte_length c" by auto
    with w False show ?thesis
      by (auto simp: select_loop_holding_Cons simp del: select_loop.simps)
  qed
qed

text \<open>Candidates that are not strictly smaller never replace the current best.\<close>

lemma select_loop_keeps:
  "\<forall>c\<in>set cs. byte_length t \<le> byte_length c \<Longrightarrow>
   select_loop (holding t) cs = Inr (holding t)"
  by (induction cs) (simp_all add: select_loop_holding_Cons del: select_loop.simps(2))

lemma select_loop_first_min:
  "byte_length w < byte_length t \<Longrightarrow>
   \<forall>c\<in>set pre. byte_length w < byte_length c \<Longrightarrow>
   \<forall>c\<in>set post. byte_length w \<le> byte_length c \<Longrightarrow>
   select_loop (holding t) (pre @ w # post) = Inr (holding w)"
proof (induction pre arbitrary: t)
  case Nil
  then show ?case
    by (simp add: select_loop_holding_Cons select_loop_keeps del: select_loop.simps)
next
  case (Cons p pre)
  then show ?case
    by (simp add: select_loop_holding_Cons del: select_loop.simps)
qed

lemma select_loop_from_start:
  assumes "\<forall>c\<in>set pre. byte_length w < byte_length c"
    and "\<forall>c\<in>set post. byte_length w \<le> byte_length c"
  shows "select_loop \<lparr>sel_text = None, sel_buf = None\<rparr> (pre @ w # post) = Inr (holding w)"
proof (cases pre)
  case Nil
  with assms show ?thesis
    by (simp add: select_loop_first select_loop_keeps del: select_loop.simps)
next
  case (Cons p pre')
  with assms show ?thesis
    by (simp add: select_loop_first select_loop_first_min del: select_loop.simps)
qed

lemma select_loop_nonempty:
  assumes "cs \<noteq> []"
  shows "\<exists>w. select_loop \<lparr>sel_text = None, sel_buf = None\<rparr> cs = Inr (holding w)
             \<and> w \<in> set cs \<and> (\<forall>c\<in>set cs. byte_length w \<le> byte_length c)"
proof -
  from assms obtain c cs' where cs: "cs = c # cs'"
    by (cases cs) auto
  from select_loop_min [of c cs'] show ?thesis
    unfolding cs select_loop_first .
qed

section \<open>Claims about the candidate selector\<close>

text \<open>
  C1, selection minimality: when the candidate sequence is not empty, \<open>compressSource\<close>
  returns one of the candidates with its buffer, and the length of that buffer, which is
  the UTF-8 byte length of the returned text, is at most the UTF-8 byte length of every
  candidate of the sequence.
\<close>

theorem compressSource_minimal:
  assumes "runPacker packer source [] \<noteq> []"
  shows "\<exists>t b. compressSource packer source = Inr \<lparr>sel_text = Some t, sel_buf = Some b\<rparr>
           \<and> t \<in> set (runPacker packer source [])
           \<and> length b = byte_length t
           \<and> (\<forall>c\<in>set (runPacker packer source []). length b \<le> byte_length c)"
proof -
  from select_loop_nonempty [OF assms] obtain w where
    w: "compressSource packer source = Inr (holding w)"
       "w \<in> set (runPacker packer source [])"
       "\<forall>c\<in>set (runPacker packer source []). byte_length w \<le> byte_length c"
    unfolding compressSource_def by blast
  show ?thesis
  proof (intro exI conjI)
    show "compressSource packer source
            = Inr \<lparr>sel_text = Some w, sel_buf = Some (utf8_encode w)\<rparr>"
      using w(1) by (simp add: holding_def)
    show "w \<in> set (runPacker packer source [])" by (rule w(2))
    show "length (utf8_encode w) = byte_length w" by (simp add: byte_length_def)
    show "\<forall>c\<in>set (runPacker packer source []). length (utf8_encode w) \<le> byte_length c"
      using w(3) by (simp add: byte_length_def)
  qed
qed

theorem compressSource_minimal_witness:
  "runPacker (packer_of [js ''abcd'', js ''ab'', js ''abc'']) (js ''source'') [] \<noteq> []
   \<and> (\<exists>t b. compressSource (packer_of [js ''abcd'', js ''ab'', js ''abc'']) (js ''source'')
               = Inr \<lparr>sel_text = Some t, sel_buf = Some b\<rparr>
         \<and> t \<in> set (runPacker (packer_of [js ''abcd'', js ''ab'', js ''abc'']) (js ''source'') [])
         \<and> length b = byte_length t
         \<and> (\<forall>c\<in>set (runPacker (packer_of [js ''abcd'', js ''ab'', js ''abc''])
                        (js ''source'') []).
               length b \<le> byte_length c))
   \<and> compressSource (packer_of [js ''abcd'', js ''ab'', js ''abc'']) (js ''source'')
       = Inr \<lparr>sel_text = Some (js ''ab''), sel_buf = Some [0x61, 0x62]\<rparr>"
proof -
  have ne: "runPacker (packer_of [js ''abcd'', js ''ab'', js ''abc'']) (js ''source'') [] \<noteq> []"
    by (simp add: runPacker_packer_of)
  have winner: "compressSource (packer_of [js ''abcd'', js ''ab'', js ''abc'']) (js ''source'')
                  = Inr \<lparr>sel_text = Some (js ''ab''), sel_buf = Some [0x61, 0x62]\<rparr>"
    by (simp add: compressSource_def runPacker_packer_of select_step_def js_def
        utf8_code_point_def is_high_surrogate_def is_low_surrogate_def)
  from ne compressSource_minimal [OF ne] winner show ?thesis
    by blast
qed

text \<open>The byte lengths of the strings used as examples.\<close>

lemma byte_length_abc: "byte_length (js ''abc'') = 3"
  by (simp add: byte_length_def js_def utf8_code_point_def is_high_surrogate_def is_low_surrogate_def)

lemma byte_length_xyz: "byte_length (js ''xyz'') = 3"
  by (simp add: byte_length_def js_def utf8_code_point_def is_high_surrogate_def is_low_surrogate_def)

lemma byte_length_euro: "byte_length [0x20AC] = 3"
  by (simp add: byte_length_def utf8_code_point_def is_high_surrogate_def is_low_surrogate_def)

text \<open>
  C2, tie-break: a later candidate replaces the current best only when its byte length is
  strictly smaller. So when \<open>w\<close> stands in the sequence after candidates that are all
  strictly longer in bytes and before candidates that are all at least as long, \<open>w\<close>
  is returned: of candidates of the same minimal byte length, the one seen first.
\<close>

theorem compressSource_first_seen:
  assumes "runPacker packer source [] = pre @ w # post"
    and "\<forall>c\<in>set pre. byte_length w < byte_length c"
    and "\<forall>c\<in>set post. byte_length w \<le> byte_length c"
  shows "compressSource packer source
           = Inr \<lparr>sel_text = Some w, sel_buf = Some (utf8_encode w)\<rparr>"
  using select_loop_from_start [OF assms(2,3)] assms(1)
  by (simp add: compressSource_def holding_def)

theorem compressSource_first_seen_witness:
  "runPacker (packer_of [js ''abc'', js ''xyz'']) (js ''source'') [] = [] @ js ''abc'' # [js ''xyz'']
   \<and> byte_length (js ''abc'') = byte_length (js ''xyz'')
   \<and> compressSource (packer_of [js ''abc'', js ''xyz'']) (js ''source'')
       = Inr \<lparr>sel_text = Some (js ''abc''), sel_buf = Some (utf8_encode (js ''abc''))\<rparr>"
proof -
  have h1: "runPacker (packer_of [js ''abc'', js ''xyz'']) (js ''source'') []
              = [] @ js ''abc'' # [js ''xyz'']"
    by (simp add: runPacker_packer_of)
  have h2: "\<forall>c\<in>set []. byte_length (js ''abc'') < byte_length c"
    by simp
  have h3: "\<forall>c\<in>set [js ''xyz'']. byte_length (js ''abc'') \<le> byte_length c"
    by (simp add: byte_length_abc byte_length_xyz)
  have h4: "byte_length (js ''abc'') = byte_length (js ''xyz'')"
    by (simp add: byte_length_abc byte_length_xyz)
  from compressSource_first_seen [OF h1 h2 h3] h1 h4 show ?thesis
    by blast
qed

text \<open>
  C3, the empty sequence. As stated (\<open>compressSource\<close> fails with an error) the claim
  does not hold: with no candidate the loop body never runs and \<open>compressSource\<close>
  returns the pair of its two initial values.
\<close>

theorem compressSource_empty_counterexample:
  "compressSource (packer_of []) (js ''var a'') = Inr \<lparr>sel_text = None, sel_buf = None\<rparr>"
  by (simp add: compressSource_def runPacker_packer_of)

text \<open>
  C3 as amended: when the sequence is empty, \<open>compressSource\<close> returns the pair whose
  text and buffer are both undefined, never the source text or any other text, and does
  not fail itself; \<open>build\<close> then fails with a TypeError when it reads \<open>buf.length\<close>.
\<close>

theorem compressSource_empty:
  assumes "runPacker packer source [] = []"
  shows "compressSource packer source = Inr \<lparr>sel_text = None, sel_buf = None\<rparr>
         \<and> build packer stderr_columns source shim = Inl TypeError"
  using assms by (simp add: compressSource_def build_def)

theorem compressSource_empty_witness:
  "runPacker (packer_of []) (js ''var a'') [] = []
   \<and> compressSource (packer_of []) (js ''var a'') = Inr \<lparr>sel_text = None, sel_buf = None\<rparr>
   \<and> build (packer_of []) None (js ''var a'') (js ''{{code}}'') = Inl TypeError"
proof -
  have h: "runPacker (packer_of []) (js ''var a'') [] = []"
    by (simp add: runPacker_packer_of)
  from compressSource_empty [OF h, of None "js ''{{code}}''"] h show ?thesis
    by blast
qed

text \<open>
  C4, encoding sensitivity. As stated (every pair in which one candidate has fewer
  characters but at least as many bytes is a tie, resolved for the first seen) the claim
  does not hold when the bytes are strictly more: the euro sign, one character of three
  bytes, comes first and loses to two ASCII characters of two bytes.
\<close>

theorem compressSource_pair_counterexample:
  "length [0x20AC :: code_unit] < length (js ''ab'')
   \<and> byte_length (js ''ab'') \<le> byte_length [0x20AC]
   \<and> compressSource (packer_of [[0x20AC], js ''ab'']) (js ''source'')
       = Inr \<lparr>sel_text = Some (js ''ab''), sel_buf = Some [0x61, 0x62]\<rparr>"
  by (simp add: compressSource_def runPacker_packer_of select_step_def js_def
      utf8_code_point_def is_high_surrogate_def is_low_surrogate_def byte_length_def)

text \<open>
  C4 as amended: the selector compares two candidates by their UTF-8 byte lengths and by
  nothing else, whatever their character counts. The second replaces the first exactly
  when its byte length is strictly smaller; with equal byte lengths, as for one character
  of three bytes and three characters of one byte, the first seen is returned.
\<close>

theorem compressSource_pair:
  assumes "runPacker packer source [] = [a, b]"
  shows "compressSource packer source =
           Inr (if byte_length b < byte_length a
                then \<lparr>sel_text = Some b, sel_buf = Some (utf8_encode b)\<rparr>
                else \<lparr>sel_text = Some a, sel_buf = Some (utf8_encode a)\<rparr>)"
  using assms
  by (simp add: compressSource_def select_step_def byte_length_def)

theorem compressSource_pair_witness:
  "runPacker (packer_of [[0x20AC], js ''abc'']) (js ''source'') [] = [[0x20AC], js ''abc'']
   \<and> length [0x20AC :: code_unit] < length (js ''abc'')
   \<and> byte_length [0x20AC] = byte_length (js ''abc'')
   \<and> compressSource (packer_of [[0x20AC], js ''abc'']) (js ''source'')
       = Inr \<lparr>sel_text = Some [0x20AC], sel_buf = Some [0xE2, 0x82, 0xAC]\<rparr>"
proof -
  have h: "runPacker (packer_of [[0x20AC], js ''abc'']) (js ''source'') [] = [[0x20AC], js ''abc'']"
    by (simp add: runPacker_packer_of)
  have l: "length [0x20AC :: code_unit] < length (js ''abc'')"
    by (simp add: js_def)
  from compressSource_pair [OF h] h l show ?thesis
    by (simp add: byte_length_euro byte_length_abc utf8_code_point_def
        is_high_surrogate_def is_low_surrogate_def)
qed

text \<open>
  C10, the returned pair is consistent: when the sequence is not empty, the buffer
  returned by \<open>compressSource\<close> is the UTF-8 encoding of the returned text, which is
  one of the candidates; so the size that \<open>build\<close> reports, the bytes it writes to
  \<open>demo.js\<close> and the text it embeds in the document all come from that one candidate.
\<close>

theorem compressSource_consistent:
  assumes "runPacker packer source [] \<noteq> []"
  shows "\<exists>t\<in>set (runPacker packer source []).
           compressSource packer source
             = Inr \<lparr>sel_text = Some t, sel_buf = Some (utf8_encode t)\<rparr>
           \<and> build packer stderr_columns source shim =
               (case buildHTML (JString t) shim of
                  Inl e \<Rightarrow> Inl e
                | Inr html \<Rightarrow>
                    Inr \<lparr>stats = printStats stderr_columns (byte_length t),
                         demo_js = utf8_encode t, demo_html = html\<rparr>)"
proof -
  from select_loop_nonempty [OF assms] obtain w where
    w: "compressSource packer source = Inr (holding w)"
       "w \<in> set (runPacker packer source [])"
    unfolding compressSource_def by blast
  have "build packer stderr_columns source shim =
               (case buildHTML (JString w) shim of
                  Inl e \<Rightarrow> Inl e
                | Inr html \<Rightarrow>
                    Inr \<lparr>stats = printStats stderr_columns (byte_length w),
                         demo_js = utf8_encode w, demo_html = html\<rparr>)"
    unfolding byte_length_def by (simp add: build_def w(1) holding_def)
  with w show ?thesis
    by (auto simp: holding_def)
qed

theorem compressSource_consistent_witness:
  "runPacker (packer_of [js ''abc'', [0x20AC, 0x20AC]]) (js ''source'') [] \<noteq> []
   \<and> (\<exists>t\<in>set (runPacker (packer_of [js ''abc'', [0x20AC, 0x20AC]]) (js ''source'') []).
           compressSource (packer_of [js ''abc'', [0x20AC, 0x20AC]]) (js ''source'')
             = Inr \<lparr>sel_text = Some t, sel_buf = Some (utf8_encode t)\<rparr>
           \<and> build (packer_of [js ''abc'', [0x20AC, 0x20AC]]) None (js ''source'') (js ''{{code}}'') =
               (case buildHTML (JString t) (js ''{{code}}'') of
                  Inl e \<Rightarrow> Inl e
                | Inr html \<Rightarrow>
                    Inr \<lparr>stats = printStats None (byte_length t),
                         demo_js = utf8_encode t, demo_html = html\<rparr>))
   \<and> build (packer_of [js ''abc'', [0x20AC, 0x20AC]]) None (js ''source'') (js ''{{code}}'')
       = Inr \<lparr>stats = printStats None 3, demo_js = [0x61, 0x62, 0x63],
              demo_html = js ''abc''\<rparr>"
proof -
  have ne: "runPacker (packer_of [js ''abc'', [0x20AC, 0x20AC]]) (js ''source'') [] \<noteq> []"
    by (simp add: runPacker_packer_of)
  have run: "build (packer_of [js ''abc'', [0x20AC, 0x20AC]]) None (js ''source'') (js ''{{code}}'')
               = Inr \<lparr>stats = printStats None 3, demo_js = [0x61, 0x62, 0x63],
                      demo_html = js ''abc''\<rparr>"
    by (simp add: build_def compressSource_def runPacker_packer_of select_step_def
        buildHTML_def title_def evalTemplate_def template_callback_def map_get_def
        is_word_char_def js_def numeral_3_eq_3
        utf8_code_point_def is_high_surrogate_def is_low_surrogate_def)
  from ne compressSource_consistent [OF ne] run show ?thesis
    by blast
qed

section \<open>Properties of the template engine\<close>

lemma js_braces: "js ''{{'' = [0x7B, 0x7B]" "js ''}}'' = [0x7D, 0x7D]"
  by (simp_all add: js_def)

lemma not_word_brace: "\<not> is_word_char 0x7B" "\<not> is_word_char 0x7D"
  by (simp_all add: is_word_char_def)

lemma takeWhile_stop:
  "\<not> P y \<Longrightarrow> takeWhile P (r @ y # ys) = takeWhile P r"
  by (induction r) simp_all

lemma dropWhile_stop:
  "\<not> P y \<Longrightarrow> dropWhile P (r @ y # ys) = dropWhile P r @ y # ys"
  by (induction r) simp_all

lemma dropWhile_all: "\<forall>x\<in>set r. P x \<Longrightarrow> dropWhile P r = []"
  by simp

text \<open>At a placeholder the pattern matches, and captures its name.\<close>

lemma match_placeholder_here:
  assumes "is_identifier name"
  shows "match_placeholder (placeholder name @ post) = Some (name, post)"
proof -
  from assms have all: "\<forall>u\<in>set name. is_word_char u" and ne: "name \<noteq> []"
    by (simp_all add: is_identifier_def)
  have t: "takeWhile is_word_char (name @ 0x7D # 0x7D # post) = name"
    using all not_word_brace(2) by (simp add: takeWhile_stop)
  have d: "dropWhile is_word_char (name @ 0x7D # 0x7D # post) = 0x7D # 0x7D # post"
    using all not_word_brace(2) by (simp add: dropWhile_stop)
  show ?thesis
    using ne by (simp add: placeholder_def js_braces t d)
qed

text \<open>A match that starts before two opening braces ends before them.\<close>

lemma match_placeholder_before:
  assumes "pre \<noteq> []"
  shows "match_placeholder (pre @ 0x7B # 0x7B # ys) =
           map_option (\<lambda>(n, r). (n, r @ 0x7B # 0x7B # ys)) (match_placeholder pre)"
proof (cases pre)
  case Nil
  with assms show ?thesis by simp
next
  case (Cons a pre')
  show ?thesis
  proof (cases pre')
    case Nil
    with Cons show ?thesis
      by (simp add: not_word_brace)
  next
    case (Cons b r)
    have t: "takeWhile is_word_char (r @ 0x7B # 0x7B # ys) = takeWhile is_word_char r"
      by (rule takeWhile_stop) (rule not_word_brace)
    have d: "dropWhile is_word_char (r @ 0x7B # 0x7B # ys)
               = dropWhile is_word_char r @ 0x7B # 0x7B # ys"
      by (rule dropWhile_stop) (rule not_word_brace)
    from \<open>pre = a # pre'\<close> Cons show ?thesis
      by (auto simp: t d Let_def dropWhile_all split: list.splits)
  qed
qed

lemma scan_template_placeholder:
  assumes "is_identifier name"
  shows "scan_template (pre @ placeholder name @ post)
           = scan_template pre @ Placeholder name # scan_template post"
proof (induction pre rule: scan_template.induct)
  case 1
  have "placeholder name @ post = 0x7B # (0x7B # name @ js ''}}'' @ post)"
    by (simp add: placeholder_def js_braces)
  then show ?case
    using match_placeholder_here [OF assms, of post] by simp
next
  case (2 c cs)
  have ys: "placeholder name @ post = 0x7B # 0x7B # (name @ js ''}}'' @ post)"
    by (simp add: placeholder_def js_braces)
  have m: "match_placeholder ((c # cs) @ placeholder name @ post) =
             map_option (\<lambda>(n, r). (n, r @ placeholder name @ post)) (match_placeholder (c # cs))"
    unfolding ys by (rule match_placeholder_before) simp
  show ?case
  proof (cases "match_placeholder (c # cs)")
    case None
    with m 2(1) show ?thesis by simp
  next
    case (Some x)
    obtain n r where x: "x = (n, r)" by (cases x)
    have ih: "scan_template (r @ placeholder name @ post)
                = scan_template r @ Placeholder name # scan_template post"
      by (rule 2(2) [OF Some]) (simp add: x)
    have here: "match_placeholder (c # cs) = Some (n, r)"
      using Some x by simp
    have there: "match_placeholder (c # cs @ placeholder name @ post)
                   = Some (n, r @ placeholder name @ post)"
      using m here by simp
    show ?thesis
      by (simp add: here there ih)
  qed
qed

lemma substitute_append:
  "substitute variables (xs @ ys) =
     (case substitute variables xs of
        Inl e \<Rightarrow> Inl e
      | Inr a \<Rightarrow> (case substitute variables ys of Inl e \<Rightarrow> Inl e | Inr b \<Rightarrow> Inr (a @ b)))"
  by (induction variables xs rule: substitute.induct) (simp_all split: sum.splits)

lemma substitute_error:
  "substitute variables ps = Inl e \<Longrightarrow>
   \<exists>n. e = UndefinedVariable n \<and> Placeholder n \<in> set ps
       \<and> (map_get variables n = JUndefined \<or> map_get variables n = JNull)"
  by (induction variables ps rule: substitute.induct)
     (auto simp: template_callback_def split: sum.splits jsvalue.splits)

text \<open>The whole template engine around one placeholder.\<close>

lemma evalTemplate_placeholder:
  assumes "is_identifier name"
  shows "evalTemplate (pre @ placeholder name @ post) variables =
     (case evalTemplate pre variables of
        Inl e \<Rightarrow> Inl e
      | Inr a \<Rightarrow>
         (case template_callback variables name of
            Inl e \<Rightarrow> Inl e
          | Inr v \<Rightarrow>
             (case evalTemplate post variables of Inl e \<Rightarrow> Inl e | Inr b \<Rightarrow> Inr (a @ v @ b))))"
  by (simp add: evalTemplate_def scan_template_placeholder [OF assms] substitute_append
      split: sum.splits)

lemma evalTemplate_plain:
  "0x7B \<notin> set t \<Longrightarrow> evalTemplate t variables = Inr t"
  unfolding evalTemplate_def
proof (induction t rule: scan_template.induct)
  case 1
  show ?case by simp
next
  case (2 c cs)
  from 2(3) have "match_placeholder (c # cs) = None"
    by (cases cs) auto
  with 2 show ?case by simp
qed

lemma placeholders_iff:
  "n \<in> set (placeholders t) \<longleftrightarrow> Placeholder n \<in> set (scan_template t)"
  unfolding placeholders_def by (induction "scan_template t" arbitrary: t) (auto split: piece.splits)

lemma placeholders_around:
  assumes "is_identifier name"
  shows "placeholders (pre @ placeholder name @ post)
           = placeholders pre @ name # placeholders post"
  by (simp add: placeholders_def scan_template_placeholder [OF assms])

lemma evalTemplate_total:
  assumes "\<forall>n\<in>set (placeholders t). \<exists>s. variables n = Some (JString s)"
  shows "\<exists>out. evalTemplate t variables = Inr out"
proof (cases "evalTemplate t variables")
  case (Inl e)
  then obtain n where n: "Placeholder n \<in> set (scan_template t)"
      "map_get variables n = JUndefined \<or> map_get variables n = JNull"
    unfolding evalTemplate_def by (blast dest: substitute_error)
  from n(1) have "n \<in> set (placeholders t)"
    by (simp add: placeholders_iff)
  with assms obtain s where "variables n = Some (JString s)"
    by blast
  with n(2) show ?thesis
    by (simp add: map_get_def)
next
  case (Inr out)
  then show ?thesis by blast
qed

text \<open>Plain text: where no placeholder occurs, the pattern never matches.\<close>

lemma match_placeholder_sound:
  assumes "match_placeholder s = Some (n, rest)"
  shows "s = placeholder n @ rest \<and> is_identifier n"
proof (cases s)
  case Nil
  with assms show ?thesis by simp
next
  case (Cons a s')
  show ?thesis
  proof (cases s')
    case Nil
    with Cons assms show ?thesis by simp
  next
    case (Cons b r)
    from assms \<open>s = a # s'\<close> Cons
    have ab: "a = 0x7B" "b = 0x7B"
      and n: "n = takeWhile is_word_char r" "n \<noteq> []"
      and d: "dropWhile is_word_char r = 0x7D # 0x7D # rest"
      by (auto simp: Let_def split: if_splits list.splits)
    have "r = takeWhile is_word_char r @ dropWhile is_word_char r"
      by simp
    then have r: "r = n @ 0x7D # 0x7D # rest"
      using n(1) d by simp
    have "\<forall>u\<in>set n. is_word_char u"
      unfolding n(1) by (auto dest: set_takeWhileD)
    with n(2) have "is_identifier n"
      by (simp add: is_identifier_def)
    moreover have "s = placeholder n @ rest"
      using \<open>s = a # s'\<close> Cons ab r by (simp add: placeholder_def js_braces)
    ultimately show ?thesis by simp
  qed
qed

lemma no_placeholder_tail: "\<not> has_placeholder (c # cs) \<Longrightarrow> \<not> has_placeholder cs"
  unfolding has_placeholder_def
  by (metis append_Cons)

lemma no_placeholder_no_match:
  assumes "\<not> has_placeholder s"
  shows "match_placeholder s = None"
proof (cases "match_placeholder s")
  case None
  then show ?thesis .
next
  case (Some x)
  obtain n rest where "x = (n, rest)" by (cases x)
  with Some match_placeholder_sound [of s n rest]
  have "s = [] @ placeholder n @ rest" "is_identifier n"
    by simp_all
  with assms show ?thesis
    unfolding has_placeholder_def by blast
qed

lemma scan_template_plain:
  "\<not> has_placeholder t \<Longrightarrow> scan_template t = map Literal t"
proof (induction t rule: scan_template.induct)
  case 1
  show ?case by simp
next
  case (2 c cs)
  from 2(3) have none: "match_placeholder (c # cs) = None"
    by (rule no_placeholder_no_match)
  from 2(3) have "\<not> has_placeholder cs"
    by (rule no_placeholder_tail)
  with 2(1) none show ?case by simp
qed

lemma substitute_literals: "substitute variables (map Literal t) = Inr t"
  by (induction t) simp_all

lemma evalTemplate_no_placeholder:
  "\<not> has_placeholder t \<Longrightarrow> evalTemplate t variables = Inr t"
  by (simp add: evalTemplate_def scan_template_plain substitute_literals)

lemma no_brace_no_placeholder: "0x7B \<notin> set t \<Longrightarrow> \<not> has_placeholder t"
  unfolding has_placeholder_def by (auto simp: placeholder_def js_braces)

lemma has_placeholder_iff: "has_placeholder t \<longleftrightarrow> placeholders t \<noteq> []"
proof
  assume "has_placeholder t"
  then obtain p n q where "t = p @ placeholder n @ q" "is_identifier n"
    unfolding has_placeholder_def by blast
  then show "placeholders t \<noteq> []"
    by (simp add: placeholders_around)
next
  assume "placeholders t \<noteq> []"
  show "has_placeholder t"
  proof (rule ccontr)
    assume "\<not> has_placeholder t"
    then have "scan_template t = map Literal t"
      by (rule scan_template_plain)
    then have "placeholders t = []"
      by (simp add: placeholders_def)
    with \<open>placeholders t \<noteq> []\<close> show False by simp
  qed
qed

text \<open>Every template is such a text.\<close>

lemma template_text_exists:
  "\<exists>t0 parts. t = template_text t0 (map (\<lambda>(n, u). (n, f n, u)) parts)
      \<and> \<not> has_placeholder t0
      \<and> (\<forall>(n, u)\<in>set parts. is_identifier n \<and> \<not> has_placeholder u)"
proof (induction t rule: scan_template.induct)
  case 1
  have "[] = template_text [] (map (\<lambda>(n, u). (n, f n, u)) [])
      \<and> \<not> has_placeholder []
      \<and> (\<forall>(n, u)\<in>set ([] :: (jsstring \<times> jsstring) list). is_identifier n \<and> \<not> has_placeholder u)"
    by (simp add: no_brace_no_placeholder)
  then show ?case by blast
next
  case (2 c cs)
  show ?case
  proof (cases "match_placeholder (c # cs)")
    case None
    from 2(1) [OF None] obtain t0 parts where
      cs: "cs = template_text t0 (map (\<lambda>(n, u). (n, f n, u)) parts)"
      and t0: "\<not> has_placeholder t0"
      and parts: "\<forall>(n, u)\<in>set parts. is_identifier n \<and> \<not> has_placeholder u"
      by blast
    have "\<not> has_placeholder (c # t0)"
    proof
      assume "has_placeholder (c # t0)"
      then obtain p n q where pq: "c # t0 = p @ placeholder n @ q" and n: "is_identifier n"
        unfolding has_placeholder_def by blast
      show False
      proof (cases p)
        case Nil
        obtain tl where "cs = t0 @ tl"
          using cs by (cases parts) auto
        with pq Nil have "c # cs = placeholder n @ (q @ tl)"
          by simp
        with match_placeholder_here [OF n, of "q @ tl"] None show False
          by simp
      next
        case (Cons a p')
        with pq have "t0 = p' @ placeholder n @ q" by simp
        with n t0 show False
          unfolding has_placeholder_def by blast
      qed
    qed
    moreover have "c # cs = template_text (c # t0) (map (\<lambda>(n, u). (n, f n, u)) parts)"
      using cs by (cases parts) auto
    ultimately show ?thesis
      using parts by blast
  next
    case (Some x)
    obtain n rest where x: "x = (n, rest)" by (cases x)
    from 2(2) [OF Some x [symmetric]] obtain t0 parts where
      rest: "rest = template_text t0 (map (\<lambda>(n, u). (n, f n, u)) parts)"
      and t0: "\<not> has_placeholder t0"
      and parts: "\<forall>(n, u)\<in>set parts. is_identifier n \<and> \<not> has_placeholder u"
      by blast
    from Some x match_placeholder_sound [of "c # cs" n rest]
    have here: "c # cs = placeholder n @ rest" and n: "is_identifier n"
      by simp_all
    have "c # cs = template_text [] (map (\<lambda>(n, u). (n, f n, u)) ((n, t0) # parts))"
      using here rest by simp
    moreover have "\<not> has_placeholder []"
      by (simp add: no_brace_no_placeholder)
    moreover have "\<forall>(n, u)\<in>set ((n, t0) # parts). is_identifier n \<and> \<not> has_placeholder u"
      using n t0 parts by simp
    ultimately show ?thesis by blast
  qed
qed

section \<open>Claims about the text escaper and the template engine\<close>

text \<open>
  C5, what \<open>escapeTextHTML\<close> does at the example of the claim: \<open>a<b>c&d\<close> comes back
  unchanged, none of its three special characters is replaced, since the pattern only
  matches the three in a row; and on that one text, \<open>&<>\<close>, the callback throws.
\<close>

theorem escapeTextHTML_unescaped:
  "escapeTextHTML (js ''a<b>c&d'') = Inr (js ''a<b>c&d'')
   \<and> escapeTextHTML (js ''&<>'') = Inl (UnexpectedText (js ''&<>''))"
  by (simp add: js_def escape_callback_def)

text \<open>
  C6, a missing variable: when the template holds a placeholder \<open>{{name}}\<close> whose value
  is absent from the variables, \<open>null\<close> or \<open>undefined\<close>, \<open>evalTemplate\<close> fails with
  the error for an undefined variable and returns no string. The error carries an
  identifier that has no value; it is \<open>name\<close> itself unless the text before the
  placeholder already fails.
\<close>

theorem evalTemplate_missing_variable:
  assumes "is_identifier name"
    and "variables name = None \<or> variables name = Some JNull
         \<or> variables name = Some JUndefined"
  shows "(\<exists>n. evalTemplate (pre @ placeholder name @ post) variables
                = Inl (UndefinedVariable n)
             \<and> (variables n = None \<or> variables n = Some JNull
                 \<or> variables n = Some JUndefined))
         \<and> evalTemplate (pre @ placeholder name @ post) variables =
             (case evalTemplate pre variables of
                Inl e \<Rightarrow> Inl e
              | Inr a \<Rightarrow> Inl (UndefinedVariable name))"
proof -
  from assms(2) have cb: "template_callback variables name = Inl (UndefinedVariable name)"
    by (auto simp: template_callback_def map_get_def)
  have eq: "evalTemplate (pre @ placeholder name @ post) variables =
             (case evalTemplate pre variables of
                Inl e \<Rightarrow> Inl e
              | Inr a \<Rightarrow> Inl (UndefinedVariable name))"
    by (simp add: evalTemplate_placeholder [OF assms(1)] cb split: sum.splits)
  have "\<exists>n. evalTemplate (pre @ placeholder name @ post) variables
                = Inl (UndefinedVariable n)
             \<and> (variables n = None \<or> variables n = Some JNull
                 \<or> variables n = Some JUndefined)"
  proof (cases "evalTemplate pre variables")
    case (Inl e)
    then obtain n where "e = UndefinedVariable n"
      "map_get variables n = JUndefined \<or> map_get variables n = JNull"
      unfolding evalTemplate_def by (blast dest: substitute_error)
    with Inl eq show ?thesis
      by (auto simp: map_get_def split: option.splits)
  next
    case (Inr a)
    with eq assms(2) show ?thesis by simp
  qed
  with eq show ?thesis by blast
qed

theorem evalTemplate_missing_variable_witness:
  "evalTemplate (js ''<p>{{missing}}</p>'') [js ''code'' \<mapsto> JString (js ''1+1'')]
     = Inl (UndefinedVariable (js ''missing''))"
proof -
  have id: "is_identifier (js ''missing'')"
    by (simp add: is_identifier_def js_def is_word_char_def)
  have un: "[js ''code'' \<mapsto> JString (js ''1+1'')] (js ''missing'') = None
            \<or> [js ''code'' \<mapsto> JString (js ''1+1'')] (js ''missing'') = Some JNull
            \<or> [js ''code'' \<mapsto> JString (js ''1+1'')] (js ''missing'') = Some JUndefined"
    by (simp add: js_def)
  have t: "js ''<p>{{missing}}</p>'' = js ''<p>'' @ placeholder (js ''missing'') @ js ''</p>''"
    by (simp add: js_def placeholder_def)
  have p: "evalTemplate (js ''<p>'') [js ''code'' \<mapsto> JString (js ''1+1'')] = Inr (js ''<p>'')"
    by (rule evalTemplate_plain) (simp add: js_def)
  from evalTemplate_missing_variable
         [where name = "js ''missing''" and pre = "js ''<p>''" and post = "js ''</p>''"
            and variables = "[js ''code'' \<mapsto> JString (js ''1+1'')]", OF id un]
  show ?thesis
    unfolding t p by simp
qed

text \<open>
  C7, substitution: a template is plain text, a placeholder, plain text, and so on. When
  every identifier of its placeholders has a string value, \<open>evalTemplate\<close> returns the
  same text with each occurrence of each placeholder replaced by the value of its
  identifier, and everything else kept as it is. Every template has this form (lemma
  \<open>template_text_exists\<close>). The witness is the template of the specification, whose
  result holds no brace.
\<close>

theorem evalTemplate_substitutes:
  assumes "\<not> has_placeholder t0"
    and "\<forall>(n, v, t)\<in>set parts.
           is_identifier n \<and> variables n = Some (JString v) \<and> \<not> has_placeholder t"
  shows "evalTemplate (template_text t0 parts) variables = Inr (filled_text t0 parts)"
  using assms
proof (induction parts arbitrary: t0)
  case Nil
  then show ?case
    by (simp add: evalTemplate_no_placeholder)
next
  case (Cons part parts)
  obtain n v t where part: "part = (n, v, t)"
    by (cases part)
  from Cons.prems(2) part have n: "is_identifier n"
    and v: "variables n = Some (JString v)"
    and t: "\<not> has_placeholder t"
    and rest: "\<forall>(n, v, t)\<in>set parts.
                 is_identifier n \<and> variables n = Some (JString v) \<and> \<not> has_placeholder t"
    by simp_all
  have before: "evalTemplate t0 variables = Inr t0"
    using Cons.prems(1) by (rule evalTemplate_no_placeholder)
  have callback: "template_callback variables n = Inr v"
    using v by (simp add: template_callback_def map_get_def)
  have after: "evalTemplate (template_text t parts) variables = Inr (filled_text t parts)"
    using t rest by (rule Cons.IH)
  show ?case
    unfolding part
    by (simp add: evalTemplate_placeholder [OF n] before callback after)
qed

theorem evalTemplate_substitutes_witness:
  "evalTemplate (js ''<p>{{title_html}}</p><script>{{code}}</script>'')
     [js ''title_html'' \<mapsto> JString (js ''A &amp; B''), js ''code'' \<mapsto> JString (js ''1+1'')]
     = Inr (js ''<p>A &amp; B</p><script>1+1</script>'')
   \<and> 0x7B \<notin> set (js ''<p>A &amp; B</p><script>1+1</script>'')"
proof -
  let ?vars = "[js ''title_html'' \<mapsto> JString (js ''A &amp; B''),
                js ''code'' \<mapsto> JString (js ''1+1'')]"
  let ?parts = "[(js ''title_html'', js ''A &amp; B'', js ''</p><script>''),
                 (js ''code'', js ''1+1'', js ''</script>'')]"
  have t0: "\<not> has_placeholder (js ''<p>'')"
    by (rule no_brace_no_placeholder) (simp add: js_def)
  have t1: "\<not> has_placeholder (js ''</p><script>'')"
    by (rule no_brace_no_placeholder) (simp add: js_def)
  have t2: "\<not> has_placeholder (js ''</script>'')"
    by (rule no_brace_no_placeholder) (simp add: js_def)
  have id: "is_identifier (js ''title_html'')" "is_identifier (js ''code'')"
    by (simp_all add: is_identifier_def js_def is_word_char_def)
  have v: "?vars (js ''title_html'') = Some (JString (js ''A &amp; B''))"
    "?vars (js ''code'') = Some (JString (js ''1+1''))"
    by (simp_all add: js_def)
  have parts: "\<forall>(n, v, t)\<in>set ?parts.
                 is_identifier n \<and> ?vars n = Some (JString v) \<and> \<not> has_placeholder t"
    using t1 t2 id v by simp
  have template: "template_text (js ''<p>'') ?parts
                    = js ''<p>{{title_html}}</p><script>{{code}}</script>''"
    by (simp add: js_def placeholder_def)
  have filled: "filled_text (js ''<p>'') ?parts = js ''<p>A &amp; B</p><script>1+1</script>''"
    by (simp add: js_def)
  have no_brace: "0x7B \<notin> set (js ''<p>A &amp; B</p><script>1+1</script>'')"
    by (simp add: js_def)
  from evalTemplate_substitutes [OF t0 parts]
  have "evalTemplate (js ''<p>{{title_html}}</p><script>{{code}}</script>'') ?vars
          = Inr (js ''<p>A &amp; B</p><script>1+1</script>'')"
    unfolding template filled .
  then show ?thesis
    using no_brace by (rule conjI)
qed

section \<open>Properties of the double arithmetic\<close>

lemma rhe_bounds: "of_int (round_half_even y) \<le> y + 1 / 2 \<and> y - 1 / 2 \<le> of_int (round_half_even y)"
  unfolding round_half_even_def Let_def by (auto simp: ) linarith+

lemma rhe_of_int [simp]: "round_half_even (of_int n) = n"
  by (simp add: round_half_even_def)

lemma rhe_mono:
  assumes "x \<le> y"
  shows "round_half_even x \<le> round_half_even y"
proof (cases "\<lfloor>x\<rfloor> = \<lfloor>y\<rfloor>")
  case True
  with assms show ?thesis
    unfolding round_half_even_def Let_def by auto
next
  case False
  with assms have lt: "\<lfloor>x\<rfloor> < \<lfloor>y\<rfloor>"
    using floor_mono [OF assms] by linarith
  have "round_half_even x \<le> \<lfloor>x\<rfloor> + 1"
    unfolding round_half_even_def Let_def by auto
  moreover have "\<lfloor>y\<rfloor> \<le> round_half_even y"
    unfolding round_half_even_def Let_def by auto
  ultimately show ?thesis using lt by linarith
qed

lemma rhe_minus: "round_half_even (- y) = - round_half_even y"
proof (cases "y = of_int \<lfloor>y\<rfloor>")
  case True
  then obtain n where "y = of_int n" ..
  then have "- y = of_int (- n)" by simp
  then show ?thesis
    unfolding \<open>y = of_int n\<close> by (metis rhe_of_int)
next
  case False
  then have "\<lceil>y\<rceil> = \<lfloor>y\<rfloor> + 1"
    by (simp add: ceiling_altdef)
  then have fl: "\<lfloor>- y\<rfloor> = - \<lfloor>y\<rfloor> - 1"
    by (simp add: ceiling_def)
  show ?thesis
    unfolding round_half_even_def Let_def fl
    by auto
qed


lemma binade_bounds:
  assumes "0 < x"
  shows "2 powi binade x \<le> x \<and> x < 2 powi (binade x + 1)"
proof (cases "1 \<le> x")
  case True
  define n where "n = \<lfloor>x\<rfloor>"
  from True have n: "0 < n" by (simp add: n_def)
  from bitlen_bounds [OF n] have b: "2 ^ nat (bitlen n - 1) \<le> n" "n < 2 ^ nat (bitlen n)"
    by simp_all
  from n have len: "1 \<le> bitlen n"
    by (simp add: bitlen_alt_def)
  have e: "binade x = bitlen n - 1"
    using True by (simp add: binade_def n_def)
  have "(2::rat) powi (bitlen n - 1) = of_int (2 ^ nat (bitlen n - 1))"
    using len by (simp add: power_int_nonneg_exp)
  also have "\<dots> \<le> of_int n"
    using b(1) by (simp only: of_int_le_iff)
  also have "\<dots> \<le> x"
    by (simp add: n_def)
  finally have lo: "2 powi binade x \<le> x"
    unfolding e .
  have "x < of_int (n + 1)"
    unfolding n_def by linarith
  also have "\<dots> \<le> of_int (2 ^ nat (bitlen n))"
    using b(2) by (simp only: of_int_le_iff)
  also have "\<dots> = (2::rat) powi (bitlen n)"
    using len by (simp add: power_int_nonneg_exp)
  finally have "x < 2 powi (binade x + 1)"
    unfolding e by simp
  with lo show ?thesis ..
next
  case False
  define y where "y = 1 / x"
  define m where "m = \<lceil>y\<rceil> - 1"
  from False assms have y: "1 < y"
    by (simp add: y_def)
  then have m: "0 < m"
    unfolding m_def by linarith
  have my: "of_int m < y" "y \<le> of_int (m + 1)"
    unfolding m_def by linarith+
  from bitlen_bounds [OF m] have b: "2 ^ nat (bitlen m - 1) \<le> m" "m < 2 ^ nat (bitlen m)"
    by simp_all
  from m have len: "1 \<le> bitlen m"
    by (simp add: bitlen_alt_def)
  have e: "binade x = - bitlen m"
    using False by (simp add: binade_def m_def y_def)
  have x: "x = 1 / y"
    using assms by (simp add: y_def)
  have "m + 1 \<le> 2 ^ nat (bitlen m)"
    using b(2) by simp
  then have "(of_int (m + 1) :: rat) \<le> of_int (2 ^ nat (bitlen m))"
    by (simp only: of_int_le_iff)
  with my(2) have "y \<le> of_int (2 ^ nat (bitlen m))"
    by (rule order_trans)
  also have "\<dots> = (2::rat) powi (bitlen m)"
    using len by (simp add: power_int_nonneg_exp)
  finally have "1 / (2 powi bitlen m) \<le> 1 / y"
    using y by (simp add: frac_le)
  then have "2 powi (- bitlen m) \<le> 1 / y"
    by (simp add: power_int_minus_divide)
  then have lo: "2 powi binade x \<le> x"
    by (simp only: e x [symmetric])
  have "(2::rat) powi (bitlen m - 1) = of_int (2 ^ nat (bitlen m - 1))"
    using len by (simp add: power_int_nonneg_exp)
  also have "\<dots> \<le> of_int m"
    using b(1) by (simp only: of_int_le_iff)
  also have "\<dots> < y"
    by (rule my(1))
  finally have "1 / y < 1 / (2 powi (bitlen m - 1))"
    by (simp add: frac_less2)
  also have "\<dots> = 2 powi (- bitlen m + 1)"
    by (simp add: power_int_minus_divide [symmetric])
  finally have "x < 2 powi (binade x + 1)"
    by (simp only: e x [symmetric])
  with lo show ?thesis ..
qed

lemma binade_less:
  assumes "0 < x" and "x < 2 powi E"
  shows "binade x < E"
proof (rule ccontr)
  assume "\<not> binade x < E"
  then have "(2::rat) powi E \<le> 2 powi binade x"
    by (intro power_int_increasing) simp_all
  with binade_bounds [OF assms(1)] assms(2) show False by linarith
qed

lemma binade_ge:
  assumes "0 < x" and "2 powi E \<le> x"
  shows "E \<le> binade x"
proof (rule ccontr)
  assume "\<not> E \<le> binade x"
  then have "(2::rat) powi (binade x + 1) \<le> 2 powi E"
    by (intro power_int_increasing) simp_all
  with binade_bounds [OF assms(1)] assms(2) show False by linarith
qed

lemma binade_mono:
  assumes "0 < x" and "x \<le> y"
  shows "binade x \<le> binade y"
proof -
  from binade_bounds [OF assms(1)] assms(2) have "2 powi binade x \<le> y" by linarith
  moreover from assms have "0 < y" by linarith
  ultimately show ?thesis by (intro binade_ge)
qed

lemma binade_eq:
  assumes "2 powi e \<le> x" and "x < 2 powi (e + 1)"
  shows "binade x = e"
proof -
  have "(0::rat) < 2 powi e" by simp
  with assms(1) have pos: "0 < x" by linarith
  from binade_ge [OF pos assms(1)] binade_less [OF pos assms(2)]
  show ?thesis by linarith
qed

lemma round_to_ulp_mono:
  assumes "x \<le> y"
  shows "round_to_ulp e x \<le> round_to_ulp e y"
proof -
  have u: "(0::rat) < 2 powi e" by simp
  from assms u have "x / 2 powi e \<le> y / 2 powi e"
    by (simp add: divide_right_mono)
  then have "round_half_even (x / 2 powi e) \<le> round_half_even (y / 2 powi e)"
    by (rule rhe_mono)
  then have "(of_int (round_half_even (x / 2 powi e)) :: rat)
               \<le> of_int (round_half_even (y / 2 powi e))"
    by (simp only: of_int_le_iff)
  with u show ?thesis
    unfolding round_to_ulp_def by (simp add: mult_right_mono)
qed

lemma round_to_ulp_exact:
  assumes "e \<le> k"
  shows "round_to_ulp e (of_int m * 2 powi k) = of_int m * 2 powi k"
proof -
  have split: "(2::rat) powi k = 2 powi (k - e) * 2 powi e"
    by (simp flip: power_int_add)
  have "(2::rat) powi (k - e) = of_int (2 ^ nat (k - e))"
    using assms by (simp add: power_int_nonneg_exp)
  then have "of_int m * 2 powi k / 2 powi e = (of_int (m * 2 ^ nat (k - e)) :: rat)"
    unfolding split by simp
  then have "round_half_even (of_int m * 2 powi k / 2 powi e) = m * 2 ^ nat (k - e)"
    by (simp only: rhe_of_int)
  then have "round_to_ulp e (of_int m * 2 powi k)
               = of_int (m * 2 ^ nat (k - e)) * 2 powi e"
    by (simp only: round_to_ulp_def)
  also have "\<dots> = of_int m * (2 powi (k - e) * 2 powi e)"
    using assms by (simp add: power_int_nonneg_exp)
  finally show ?thesis
    by (simp only: split [symmetric])
qed

lemma round_to_ulp_zero [simp]: "round_to_ulp e 0 = 0"
  using round_to_ulp_exact [of e e 0] by simp

lemma round_to_ulp_minus: "round_to_ulp e (- x) = - round_to_ulp e x"
  by (simp add: round_to_ulp_def rhe_minus)

lemma round_double_zero [simp]: "round_double 0 = 0"
  by (simp add: round_double_def)

lemma round_double_minus: "round_double (- x) = - round_double x"
  by (simp add: round_double_def round_to_ulp_minus)

lemma round_double_nonneg: "0 \<le> x \<Longrightarrow> 0 \<le> round_double x"
  unfolding round_double_def using round_to_ulp_mono [of 0 x] by simp

lemma round_double_mono_pos:
  assumes "0 < x" and "x \<le> y"
  shows "round_double x \<le> round_double y"
proof -
  from assms have y: "0 < y" by linarith
  define ex where "ex = max (- 1022) (binade x) - 52"
  define ey where "ey = max (- 1022) (binade y) - 52"
  have rx: "round_double x = round_to_ulp ex x" and ry: "round_double y = round_to_ulp ey y"
    using assms(1) y by (simp_all add: round_double_def ex_def ey_def)
  from binade_mono [OF assms] have le: "ex \<le> ey"
    by (simp add: ex_def ey_def)
  show ?thesis
  proof (cases "ex = ey")
    case True
    with round_to_ulp_mono [OF assms(2), of ey] show ?thesis
      by (simp add: rx ry)
  next
    case False
    with le have lt: "ex < ey" by simp
    define E where "E = binade y"
    from lt have E: "ey = E - 52" "- 1022 < E"
      by (auto simp: ex_def ey_def E_def)
    from lt have "binade x + 1 \<le> E"
      by (auto simp: ex_def ey_def E_def)
    then have "(2::rat) powi (binade x + 1) \<le> 2 powi E"
      by (intro power_int_increasing) simp_all
    with binade_bounds [OF assms(1)] have xE: "x \<le> 2 powi E" by linarith
    from binade_bounds [OF y] have Ey: "2 powi E \<le> y" by (simp add: E_def)
    have exE: "ex \<le> E" using lt E(1) by simp
    have eyE: "ey \<le> E" using E(1) by simp
    have "round_to_ulp ex x \<le> round_to_ulp ex (of_int 1 * 2 powi E)"
      using xE by (intro round_to_ulp_mono) simp
    also have "\<dots> = of_int 1 * 2 powi E"
      by (rule round_to_ulp_exact [OF exE])
    also have "\<dots> = round_to_ulp ey (of_int 1 * 2 powi E)"
      by (rule round_to_ulp_exact [OF eyE, symmetric])
    also have "\<dots> \<le> round_to_ulp ey y"
      using Ey by (intro round_to_ulp_mono) simp
    finally show ?thesis
      by (simp add: rx ry)
  qed
qed

lemma round_double_mono:
  assumes "x \<le> y"
  shows "round_double x \<le> round_double y"
proof -
  consider "0 < x" | "x \<le> 0" "0 \<le> y" | "y < 0"
    using assms by linarith
  then show ?thesis
  proof cases
    case 1
    then show ?thesis using assms by (rule round_double_mono_pos)
  next
    case 2
    from 2(1) have "0 \<le> round_double (- x)"
      by (intro round_double_nonneg) simp
    then have "round_double x \<le> 0"
      by (simp add: round_double_minus)
    also have "0 \<le> round_double y"
      using 2(2) by (rule round_double_nonneg)
    finally show ?thesis .
  next
    case 3
    with assms have "0 < - y" "- y \<le> - x" by simp_all
    then have "round_double (- y) \<le> round_double (- x)"
      by (rule round_double_mono_pos)
    then show ?thesis
      by (simp add: round_double_minus)
  qed
qed

lemma round_double_exact:
  assumes "\<bar>m\<bar> < 2 ^ 53" and "- 1074 \<le> k"
  shows "round_double (of_int m * 2 powi k) = of_int m * 2 powi k"
proof (cases "m = 0")
  case True
  then show ?thesis by simp
next
  case False
  define x :: rat where "x = of_int m * 2 powi k"
  have ax: "\<bar>x\<bar> = of_int \<bar>m\<bar> * 2 powi k"
    by (simp add: x_def abs_mult)
  from False have pos: "0 < \<bar>x\<bar>"
    by (simp add: x_def)
  from assms(1) have "(of_int \<bar>m\<bar> :: rat) < of_int (2 ^ 53)"
    by (simp only: of_int_less_iff)
  then have "\<bar>x\<bar> < 2 ^ 53 * 2 powi k"
    unfolding ax by (simp add: mult_strict_right_mono)
  also have "\<dots> = 2 powi (53 + k)"
    by (simp add: power_int_add)
  finally have "binade \<bar>x\<bar> < 53 + k"
    by (rule binade_less [OF pos])
  with assms(2) have "max (- 1022) (binade \<bar>x\<bar>) - 52 \<le> k"
    by simp
  then show ?thesis
    unfolding round_double_def x_def [symmetric]
    unfolding x_def by (rule round_to_ulp_exact)
qed

lemma to_double_mono:
  assumes "x \<le> y"
  shows "number_le (to_double x) (to_double y)"
  using round_double_mono [OF assms] by (auto simp: to_double_def Let_def)

lemma to_double_exact:
  assumes "\<bar>m\<bar> < 2 ^ 53" and "- 1074 \<le> k"
    and "\<bar>of_int m * 2 powi k\<bar> < (2 ^ 1024 :: rat)"
  shows "to_double (of_int m * 2 powi k) = Finite (of_int m * 2 powi k)"
  using assms(3) by (simp add: to_double_def round_double_exact [OF assms(1,2)] abs_less_iff)

lemma to_double_of_int:
  assumes "\<bar>n\<bar> < 2 ^ 53"
  shows "to_double (of_int n) = Finite (of_int n)"
proof -
  from assms have "(of_int \<bar>n\<bar> :: rat) < of_int (2 ^ 53)"
    by (simp only: of_int_less_iff)
  then have "\<bar>of_int n * 2 powi 0\<bar> < (2 ^ 1024 :: rat)"
    by simp
  from to_double_exact [OF assms _ this] show ?thesis by simp
qed

lemma number_le_PosInfinity [simp]: "number_le a PosInfinity"
  by (cases a) simp_all

lemma double_times_mono:
  assumes "number_le a b" and "0 \<le> c"
  shows "number_le (double_times a c) (double_times b c)"
  using assms
  by (cases a; cases b) (simp_all add: double_times_def to_double_mono mult_right_mono)

section \<open>Properties of the bar\<close>

lemma bar_columns_ge: "8 \<le> bar_columns stderr_columns"
  by (simp add: bar_columns_def split: option.splits)

lemma js_round_mono: "x \<le> y \<Longrightarrow> js_round x \<le> js_round y"
  unfolding js_round_def by (rule floor_mono) simp

lemma js_round_of_int: "js_round (of_int z) = z"
  unfolding js_round_def by (simp add: floor_eq_iff)

lemma bar_bwidth_mono:
  assumes "0 \<le> columns" and "f \<le> g"
  shows "bar_bwidth columns f \<le> bar_bwidth columns g"
proof -
  define a where "a = double_times (double_times (Finite f) (of_int columns)) 8"
  define b where "b = double_times (double_times (Finite g) (of_int columns)) 8"
  have "number_le (double_times (Finite f) (of_int columns))
          (double_times (Finite g) (of_int columns))"
    by (rule double_times_mono) (use assms in simp_all)
  then have "number_le a b"
    unfolding a_def b_def by (rule double_times_mono) simp
  then have "(case a of Finite p \<Rightarrow> min (columns * 8) (max 0 (js_round p))
                | PosInfinity \<Rightarrow> columns * 8 | NegInfinity \<Rightarrow> min (columns * 8) 0)
             \<le> (case b of Finite p \<Rightarrow> min (columns * 8) (max 0 (js_round p))
                | PosInfinity \<Rightarrow> columns * 8 | NegInfinity \<Rightarrow> min (columns * 8) 0)"
    by (cases a; cases b) (auto dest: js_round_mono)
  then show ?thesis
    by (simp only: bar_bwidth_def a_def b_def)
qed

lemma bar_bwidth_zero: "0 \<le> columns \<Longrightarrow> bar_bwidth columns 0 = 0"
  using js_round_of_int [of 0]
  by (simp add: bar_bwidth_def double_times_def to_double_def)

lemma bar_bwidth_one:
  assumes "0 \<le> columns" and "columns * 8 < 2 ^ 53"
  shows "bar_bwidth columns 1 = columns * 8"
proof -
  from assms have c: "\<bar>columns\<bar> < 2 ^ 53" and c8: "\<bar>columns * 8\<bar> < 2 ^ 53"
    by simp_all
  have one: "double_times (Finite 1) (of_int columns) = Finite (of_int columns)"
    by (simp add: double_times_def to_double_of_int [OF c])
  have "double_times (Finite (of_int columns)) 8 = to_double (of_int (columns * 8))"
    by (simp add: double_times_def)
  also have "\<dots> = Finite (of_int (columns * 8))"
    by (rule to_double_of_int [OF c8])
  finally have eight: "double_times (Finite (of_int columns)) 8 = Finite (of_int (columns * 8))" .
  show ?thesis
    unfolding bar_bwidth_def one eight number.case js_round_of_int
    using assms(1) by simp
qed

lemma to_int32_small: "0 \<le> x \<Longrightarrow> x < 2 ^ 31 \<Longrightarrow> to_int32 x = x"
  by (simp add: to_int32_def)

lemma and_seven: "(x::int) AND 7 = x mod 8"
proof -
  have "x AND mask 3 = x mod 2 ^ 3"
    by (simp add: take_bit_eq_mod flip: take_bit_eq_mask)
  moreover have "mask 3 = (7::int)"
    by (simp add: mask_eq_exp_minus_1)
  ultimately show ?thesis by simp
qed

lemma makeBar_full:
  assumes "bar_columns stderr_columns * 8 < 2 ^ 31"
  shows "makeBar stderr_columns 1 =
           [0x250C] @ replicate (nat (bar_columns stderr_columns)) 0x2500
           @ [0x2510, 0x0A, 0x2502]
           @ replicate (nat (bar_columns stderr_columns)) 0x2588
           @ [0x2502, 0x0A, 0x2514] @ replicate (nat (bar_columns stderr_columns)) 0x2500
           @ [0x2518, 0x0A]"
proof -
  have c: "0 \<le> bar_columns stderr_columns"
    using bar_columns_ge [of stderr_columns] by simp
  have w: "bar_bwidth (bar_columns stderr_columns) 1 = bar_columns stderr_columns * 8"
    using assms by (intro bar_bwidth_one [OF c]) simp
  have t: "to_int32 (bar_columns stderr_columns * 8) = bar_columns stderr_columns * 8"
    using c assms by (simp add: to_int32_small)
  show ?thesis
    unfolding makeBar_def Let_def w t
    by (simp add: and_seven drop_bit_eq_div c)
qed

lemma makeBar_empty:
  "makeBar stderr_columns 0 =
           [0x250C] @ replicate (nat (bar_columns stderr_columns)) 0x2500
           @ [0x2510, 0x0A, 0x2502]
           @ replicate (nat (bar_columns stderr_columns)) 0x20
           @ [0x2502, 0x0A, 0x2514] @ replicate (nat (bar_columns stderr_columns)) 0x2500
           @ [0x2518, 0x0A]"
proof -
  have c: "0 \<le> bar_columns stderr_columns"
    using bar_columns_ge [of stderr_columns] by simp
  have w: "bar_bwidth (bar_columns stderr_columns) 0 = 0"
    by (rule bar_bwidth_zero [OF c])
  show ?thesis
    unfolding makeBar_def Let_def w
    by (simp add: to_int32_def)
qed

lemma bar_columns_default: "bar_columns None = 78"
  by (simp add: bar_columns_def)

text \<open>
  At \<open>11 / 1024\<close> and 78 columns both products are doubles, so nothing is rounded:
  \<open>429 / 512\<close>, then \<open>429 / 64\<close>.
\<close>

lemma bar_bwidth_seven: "bar_bwidth (bar_columns None) (11 / 1024) = 7"
proof -
  have p1: "11 / 1024 * rat_of_int 78 = of_int 429 * 2 powi (- 9)"
    by simp
  have p2: "of_int 429 * 2 powi (- 9) * (8::rat) = of_int 429 * 2 powi (- 6)"
    by simp
  have d1: "to_double (of_int 429 * 2 powi (- 9)) = Finite (of_int 429 * 2 powi (- 9))"
    by (rule to_double_exact) simp_all
  have d2: "to_double (of_int 429 * 2 powi (- 6)) = Finite (of_int 429 * 2 powi (- 6))"
    by (rule to_double_exact) simp_all
  have r: "js_round (of_int 429 * 2 powi (- 6)) = 7"
    unfolding js_round_def by (simp add: floor_eq_iff)
  show ?thesis
    unfolding bar_bwidth_def bar_columns_default double_times_def number.case p1 d1 p2 d2 r
    by simp
qed

text \<open>
  At the double nearest to \<open>1 / 96\<close> and 78 columns the first product is rounded up to
  \<open>13 / 16\<close>, so 7 sub-units are filled, where the exact product would give 6.
\<close>

lemma bar_bwidth_rounded: "bar_bwidth 78 (6004799503160661 / 2 ^ 59) = 7"
proof -
  define x :: rat where "x = 6004799503160661 / 2 ^ 59 * 78"
  have b: "binade \<bar>x\<bar> = - 1"
    by (rule binade_eq) (simp_all add: x_def)
  have fl: "\<lfloor>x / 2 powi (- 53)\<rfloor> = 7318349394477055"
    by (simp add: x_def floor_eq_iff)
  have "round_half_even (x / 2 powi (- 53)) = 7318349394477056"
    unfolding round_half_even_def fl Let_def by (simp add: x_def)
  then have "round_double x = 7318349394477056 * 2 powi (- 53)"
    by (simp add: round_double_def b round_to_ulp_def)
  also have "\<dots> = of_int 13 * 2 powi (- 4)"
    by simp
  finally have rd: "round_double x = of_int 13 * 2 powi (- 4)" .
  have d1: "to_double x = Finite (of_int 13 * 2 powi (- 4))"
    by (simp add: to_double_def rd)
  have p2: "of_int 13 * 2 powi (- 4) * (8::rat) = of_int 13 * 2 powi (- 1)"
    by simp
  have d2: "to_double (of_int 13 * 2 powi (- 1)) = Finite (of_int 13 * 2 powi (- 1))"
    by (rule to_double_exact) simp_all
  have r: "js_round (of_int 13 * 2 powi (- 1)) = 7"
    unfolding js_round_def by (simp add: floor_eq_iff)
  have prod: "6004799503160661 / 2 ^ 59 * rat_of_int 78 = x"
    by (simp add: x_def)
  have s1: "double_times (Finite (6004799503160661 / 2 ^ 59)) (rat_of_int 78)
              = Finite (of_int 13 * 2 powi (- 4))"
    by (simp only: double_times_def number.case prod d1)
  have s2: "double_times (Finite (of_int 13 * 2 powi (- 4))) 8
              = Finite (of_int 13 * 2 powi (- 1))"
    by (simp only: double_times_def number.case p2 d2)
  show ?thesis
    by (simp only: bar_bwidth_def s1 s2 number.case r)
qed

section \<open>Claims about the bar\<close>

text \<open>
  C8, the partial block at the remainder 7: \<open>printStats(1013)\<close> on a terminal of
  unknown width calls \<open>makeBar(11 / 1024)\<close>, which fills 7 sub-units of 78 cells. The
  row then holds no partial block: \<open>barBlocks[7]\<close> lies outside the seven blocks, and
  the nine characters \<open>undefined\<close> are appended, followed by 77 blanks.
\<close>

theorem makeBar_seven_eighths:
  "report_bar (printStats None 1013) = makeBar None (11 / 1024)
   \<and> makeBar None (11 / 1024) =
       [0x250C] @ replicate 78 0x2500 @ [0x2510, 0x0A, 0x2502]
       @ js ''undefined'' @ replicate 77 0x20
       @ [0x2502, 0x0A, 0x2514] @ replicate 78 0x2500 @ [0x2518, 0x0A]"
proof
  show "report_bar (printStats None 1013) = makeBar None (11 / 1024)"
    by (simp add: printStats_def sizeLimit_def Let_def)
  show "makeBar None (11 / 1024) =
       [0x250C] @ replicate 78 0x2500 @ [0x2510, 0x0A, 0x2502]
       @ js ''undefined'' @ replicate 77 0x20
       @ [0x2502, 0x0A, 0x2514] @ replicate 78 0x2500 @ [0x2518, 0x0A]"
    unfolding makeBar_def bar_bwidth_seven Let_def
    by (simp add: bar_columns_def to_int32_def array_get_text_def barBlocks_def)
qed

text \<open>
  C9, monotonicity and endpoints: for the width \<open>columns\<close> that \<open>makeBar\<close> computes,
  the number of filled sub-units, computed with the rounding of double arithmetic, does
  not decrease when the fraction grows (for all fractions, so over the interval from 0 to
  1); it is 0 at the fraction 0, where every cell of the row is blank; and it is
  \<open>columns * 8\<close> at the fraction 1, for every width that double arithmetic counts
  exactly (\<open>columns * 8 < 2 ^ 53\<close>), where every cell of the row is a full block, for
  every width whose sub-units fit the 32-bit integers of \<open>>>\<close> and \<open>&\<close>.
\<close>

theorem makeBar_monotone:
  assumes "columns = bar_columns stderr_columns"
  shows "(f \<le> g \<longrightarrow> bar_bwidth columns f \<le> bar_bwidth columns g)
         \<and> bar_bwidth columns 0 = 0
         \<and> makeBar stderr_columns 0 =
              [0x250C] @ replicate (nat columns) 0x2500 @ [0x2510, 0x0A, 0x2502]
              @ replicate (nat columns) 0x20
              @ [0x2502, 0x0A, 0x2514] @ replicate (nat columns) 0x2500 @ [0x2518, 0x0A]
         \<and> (columns * 8 < 2 ^ 53 \<longrightarrow> bar_bwidth columns 1 = columns * 8)
         \<and> (columns * 8 < 2 ^ 31 \<longrightarrow>
              makeBar stderr_columns 1 =
                [0x250C] @ replicate (nat columns) 0x2500 @ [0x2510, 0x0A, 0x2502]
                @ replicate (nat columns) 0x2588
                @ [0x2502, 0x0A, 0x2514] @ replicate (nat columns) 0x2500 @ [0x2518, 0x0A])"
proof -
  have c: "0 \<le> bar_columns stderr_columns"
    using bar_columns_ge [of stderr_columns] by simp
  have "f \<le> g \<longrightarrow> bar_bwidth columns f \<le> bar_bwidth columns g"
    unfolding assms using c by (simp add: bar_bwidth_mono)
  moreover have "bar_bwidth columns 0 = 0"
    unfolding assms using c by (rule bar_bwidth_zero)
  moreover note makeBar_empty [of stderr_columns, folded assms]
  moreover have "columns * 8 < 2 ^ 53 \<longrightarrow> bar_bwidth columns 1 = columns * 8"
    unfolding assms using c by (simp add: bar_bwidth_one)
  moreover have "columns * 8 < 2 ^ 31 \<longrightarrow>
              makeBar stderr_columns 1 =
                [0x250C] @ replicate (nat columns) 0x2500 @ [0x2510, 0x0A, 0x2502]
                @ replicate (nat columns) 0x2588
                @ [0x2502, 0x0A, 0x2514] @ replicate (nat columns) 0x2500 @ [0x2518, 0x0A]"
    unfolding assms by (simp add: makeBar_full)
  ultimately show ?thesis by blast
qed

theorem makeBar_monotone_witness:
  "bar_bwidth 78 (1 / 4) \<le> bar_bwidth 78 (1 / 2)
   \<and> bar_bwidth 78 0 = 0
   \<and> bar_bwidth 78 1 = 78 * 8
   \<and> makeBar None 0 =
        [0x250C] @ replicate 78 0x2500 @ [0x2510, 0x0A, 0x2502]
        @ replicate 78 0x20
        @ [0x2502, 0x0A, 0x2514] @ replicate 78 0x2500 @ [0x2518, 0x0A]
   \<and> makeBar None 1 =
        [0x250C] @ replicate 78 0x2500 @ [0x2510, 0x0A, 0x2502]
        @ replicate 78 0x2588
        @ [0x2502, 0x0A, 0x2514] @ replicate 78 0x2500 @ [0x2518, 0x0A]"
proof -
  have h: "(78::int) = bar_columns None"
    by (simp add: bar_columns_default)
  from makeBar_monotone [OF h, of "1 / 4" "1 / 2"] show ?thesis
    by simp
qed

end
